theory Spec2Isabelle
  imports Main "HOL-Library.Word"
begin

section \<open>The ordered list of \<^verbatim>\<open>orderedlist.h\<close>\<close>

text \<open>
  \<^verbatim>\<open>test::OrderedList<T, Comparator>\<close> is a singly linked chain of heap nodes behind a
  sentinel \<^verbatim>\<open>head_\<close>. The model keeps the pointers: a node pointer is \<open>None\<close>
  (\<^verbatim>\<open>nullptr\<close>) or \<open>Some a\<close> for an address \<open>a\<close>, and the heap is the list of the
  nodes allocated so far, a node's address being its index. \<^verbatim>\<open>new Node(key)\<close>
  appends to that list, so a fresh address is never one in use.

  An operation that dereferences a pointer returns \<open>Inl NullDeref\<close> where the C++
  dereferences \<^verbatim>\<open>nullptr\<close>, \<open>Inl WildPointer\<close> for an address outside the heap, and
  \<open>Inl AssertFailed\<close> where an \<^verbatim>\<open>assert\<close> of the source fails (the assertions are
  modelled as compiled in). The three \<^verbatim>\<open>while\<close> loops walk the chain and need not
  terminate on a cyclic heap: they are \<^theory_text>\<open>partial_function\<close>s, \<open>None\<close> being
  "does not return".

  Isabelle does not accept a name ending in an underscore, so the members
  \<^verbatim>\<open>next_\<close>, \<^verbatim>\<open>node_\<close>, \<^verbatim>\<open>begin_\<close>, \<^verbatim>\<open>end_\<close>, \<^verbatim>\<open>compare_\<close>, \<^verbatim>\<open>head_\<close> are called
  \<open>next_link\<close>, \<open>node_ptr\<close>, \<open>begin_it\<close>, \<open>end_it\<close>, \<open>compare_fn\<close>, \<open>head_ptr\<close>.
  \<^verbatim>\<open>operator*\<close>, \<^verbatim>\<open>operator++\<close>, \<^verbatim>\<open>operator!=\<close>, \<^verbatim>\<open>begin()\<close> and \<^verbatim>\<open>end()\<close> repeat
  \<^verbatim>\<open>key()\<close>, \<^verbatim>\<open>Next()\<close> and \<^verbatim>\<open>SeekToFirst()\<close> for the range-based \<^verbatim>\<open>for\<close> loop and are
  left out. The memory orders of the atomic loads and stores have no meaning in a
  sequential model: \<open>Node_Next\<close> and \<open>NoBarrierNext\<close> both read the link,
  \<open>SetNext\<close> and \<open>NoBarrierSetNext\<close> both write it.
\<close>

subsection \<open>Nodes and the heap\<close>

datatype error = NullDeref | WildPointer | AssertFailed

type_synonym ptr = "nat option"

record 'a Node =
  key :: 'a
  next_link :: ptr

type_synonym 'a heap = "'a Node list"

definition deref :: "'a heap \<Rightarrow> ptr \<Rightarrow> error + 'a Node" where
  "deref h p = (case p of None \<Rightarrow> Inl NullDeref
     | Some a \<Rightarrow> if a < length h then Inr (h ! a) else Inl WildPointer)"

definition Node_Next :: "'a Node \<Rightarrow> ptr" where
  "Node_Next n = next_link n"

definition NoBarrierNext :: "'a Node \<Rightarrow> ptr" where
  "NoBarrierNext n = next_link n"

definition SetNext :: "ptr \<Rightarrow> 'a Node \<Rightarrow> 'a Node" where
  "SetNext x n = n\<lparr>next_link := x\<rparr>"

definition NoBarrierSetNext :: "ptr \<Rightarrow> 'a Node \<Rightarrow> 'a Node" where
  "NoBarrierSetNext x n = n\<lparr>next_link := x\<rparr>"

text \<open>\<open>update_node h p f\<close> is a call \<^verbatim>\<open>p->f(...)\<close> of a method that writes the node.\<close>

definition update_node :: "'a heap \<Rightarrow> ptr \<Rightarrow> ('a Node \<Rightarrow> 'a Node) \<Rightarrow> error + 'a heap" where
  "update_node h p f = (case p of None \<Rightarrow> Inl NullDeref
     | Some a \<Rightarrow> if a < length h then Inr (h[a := f (h ! a)]) else Inl WildPointer)"

text \<open>
  \<^verbatim>\<open>NewNode(key)\<close> is \<^verbatim>\<open>new Node(key)\<close>. The constructor of \<^verbatim>\<open>Node\<close> leaves the link
  uninitialised; both callers store it before any load, and the model starts it at
  \<open>None\<close>.
\<close>

definition NewNode :: "'a heap \<Rightarrow> 'a \<Rightarrow> 'a heap \<times> nat" where
  "NewNode h k = (h @ [\<lparr>key = k, next_link = None\<rparr>], length h)"

subsection \<open>The list and its search primitives\<close>

text \<open>
  An \<^verbatim>\<open>Iterator\<close> holds \<^verbatim>\<open>list_\<close> and \<^verbatim>\<open>node_\<close>. The list it points to is passed to
  every iterator operation as an argument, so the record keeps the node pointer only.
\<close>

record Iterator =
  node_ptr :: ptr

record 'a OrderedList =
  begin_it :: Iterator
  end_it :: Iterator
  compare_fn :: "'a \<Rightarrow> 'a \<Rightarrow> int"
  head_ptr :: nat
  heap :: "'a heap"

definition Equal :: "'a OrderedList \<Rightarrow> 'a \<Rightarrow> 'a \<Rightarrow> bool" where
  "Equal L a b = (compare_fn L a b = 0)"

definition KeyIsAfterNode :: "'a OrderedList \<Rightarrow> 'a \<Rightarrow> ptr \<Rightarrow> error + bool" where
  "KeyIsAfterNode L k n =
     (if n = None then Inr False
      else case deref (heap L) n of Inl e \<Rightarrow> Inl e
        | Inr nd \<Rightarrow> Inr (compare_fn L (key nd) k < 0))"

text \<open>
  The out-parameter \<^verbatim>\<open>Node** prev\<close> is \<open>None\<close> when the caller passes \<^verbatim>\<open>nullptr\<close> and
  \<open>Some v\<close> when it passes the address of a variable that holds \<open>v\<close>; the loop
  returns it with the node it stopped at.
\<close>

partial_function (option) FindGreaterOrEqual_loop ::
  "'a OrderedList \<Rightarrow> 'a \<Rightarrow> ptr \<Rightarrow> ptr option \<Rightarrow> (error + ptr \<times> ptr option) option" where
  "FindGreaterOrEqual_loop L k x prev =
     (if x = None then Some (Inr (x, prev))
      else case KeyIsAfterNode L k x of Inl e \<Rightarrow> Some (Inl e)
        | Inr after \<Rightarrow>
            if after then
              (case deref (heap L) x of Inl e \<Rightarrow> Some (Inl e)
               | Inr nd \<Rightarrow> FindGreaterOrEqual_loop L k (Node_Next nd)
                             (if prev \<noteq> None then Some x else prev))
            else Some (Inr (x, prev)))"

declare FindGreaterOrEqual_loop.simps [code]

definition FindGreaterOrEqual ::
  "'a OrderedList \<Rightarrow> 'a \<Rightarrow> ptr option \<Rightarrow> (error + ptr \<times> ptr option) option" where
  "FindGreaterOrEqual L k prev = FindGreaterOrEqual_loop L k (Some (head_ptr L)) prev"

partial_function (option) FindLessThan_loop ::
  "'a OrderedList \<Rightarrow> 'a \<Rightarrow> ptr \<Rightarrow> (error + ptr) option" where
  "FindLessThan_loop L k x =
     (if x = None then Some (Inr x)
      else case deref (heap L) x of Inl e \<Rightarrow> Some (Inl e)
        | Inr nd \<Rightarrow>
           (case deref (heap L) (Node_Next nd) of Inl e \<Rightarrow> Some (Inl e)
            | Inr nx \<Rightarrow>
                if compare_fn L (key nx) k < 0 then FindLessThan_loop L k (Node_Next nd)
                else Some (Inr x)))"

declare FindLessThan_loop.simps [code]

definition FindLessThan :: "'a OrderedList \<Rightarrow> 'a \<Rightarrow> (error + ptr) option" where
  "FindLessThan L k = FindLessThan_loop L k (Some (head_ptr L))"

partial_function (option) FindLast_loop :: "'a OrderedList \<Rightarrow> ptr \<Rightarrow> (error + ptr) option" where
  "FindLast_loop L x =
     (if x = None then Some (Inr x)
      else case deref (heap L) x of Inl e \<Rightarrow> Some (Inl e)
        | Inr nd \<Rightarrow>
            if Node_Next nd \<noteq> None then FindLast_loop L (Node_Next nd)
            else Some (Inr x))"

declare FindLast_loop.simps [code]

definition FindLast :: "'a OrderedList \<Rightarrow> (error + ptr) option" where
  "FindLast L = FindLast_loop L (Some (head_ptr L))"

subsection \<open>The iterator\<close>

definition Iterator_init :: Iterator where
  "Iterator_init = \<lparr>node_ptr = None\<rparr>"

definition Valid :: "Iterator \<Rightarrow> bool" where
  "Valid it = (node_ptr it \<noteq> None)"

definition Iterator_key :: "'a OrderedList \<Rightarrow> Iterator \<Rightarrow> error + 'a" where
  "Iterator_key L it =
     (if \<not> Valid it then Inl AssertFailed
      else case deref (heap L) (node_ptr it) of Inl e \<Rightarrow> Inl e | Inr nd \<Rightarrow> Inr (key nd))"

definition Next :: "'a OrderedList \<Rightarrow> Iterator \<Rightarrow> error + Iterator" where
  "Next L it =
     (if \<not> Valid it then Inl AssertFailed
      else case deref (heap L) (node_ptr it) of Inl e \<Rightarrow> Inl e
        | Inr nd \<Rightarrow> Inr (it\<lparr>node_ptr := Node_Next nd\<rparr>))"

definition Prev :: "'a OrderedList \<Rightarrow> Iterator \<Rightarrow> (error + Iterator) option" where
  "Prev L it =
     (if \<not> Valid it then Some (Inl AssertFailed)
      else case deref (heap L) (node_ptr it) of Inl e \<Rightarrow> Some (Inl e)
        | Inr nd \<Rightarrow>
           (case FindLessThan L (key nd) of None \<Rightarrow> None
            | Some (Inl e) \<Rightarrow> Some (Inl e)
            | Some (Inr r) \<Rightarrow>
                Some (Inr (it\<lparr>node_ptr := (if r = Some (head_ptr L) then None else r)\<rparr>))))"

definition SeekToFirst :: "'a OrderedList \<Rightarrow> Iterator \<Rightarrow> error + Iterator" where
  "SeekToFirst L it =
     (case deref (heap L) (Some (head_ptr L)) of Inl e \<Rightarrow> Inl e
      | Inr hd_node \<Rightarrow> Inr (it\<lparr>node_ptr := Node_Next hd_node\<rparr>))"

definition SeekToLast :: "'a OrderedList \<Rightarrow> Iterator \<Rightarrow> (error + Iterator) option" where
  "SeekToLast L it =
     (case FindLast L of None \<Rightarrow> None
      | Some (Inl e) \<Rightarrow> Some (Inl e)
      | Some (Inr r) \<Rightarrow>
          Some (Inr (it\<lparr>node_ptr := (if r = Some (head_ptr L) then None else r)\<rparr>)))"

text \<open>
  Modelled from the spec: \<^verbatim>\<open>Iterator::Seek\<close> is declared in the class and has no
  definition in the header. The specification gives it as "positions at
  \<^verbatim>\<open>FindGreaterOrEqual(target, null)\<close>".
\<close>

definition Seek :: "'a OrderedList \<Rightarrow> Iterator \<Rightarrow> 'a \<Rightarrow> (error + Iterator) option" where
  "Seek L it target =
     (case FindGreaterOrEqual L target None of None \<Rightarrow> None
      | Some (Inl e) \<Rightarrow> Some (Inl e)
      | Some (Inr (x, _)) \<Rightarrow> Some (Inr (it\<lparr>node_ptr := x\<rparr>)))"

subsection \<open>Construction, insertion, membership\<close>

text \<open>
  The constructor allocates the sentinel with the key \<^verbatim>\<open>T(0)\<close>, clears its link and
  positions \<^verbatim>\<open>begin_\<close> with \<^verbatim>\<open>SeekToFirst\<close>.
\<close>

definition new_OrderedList :: "('a::zero \<Rightarrow> 'a \<Rightarrow> int) \<Rightarrow> error + 'a OrderedList" where
  "new_OrderedList cmp =
     (let (h, a) = NewNode [] 0;
          L = \<lparr>begin_it = Iterator_init, end_it = Iterator_init, compare_fn = cmp,
               head_ptr = a, heap = h\<rparr>
      in case update_node (heap L) (Some (head_ptr L)) (SetNext None) of Inl e \<Rightarrow> Inl e
        | Inr h' \<Rightarrow>
           (case SeekToFirst (L\<lparr>heap := h'\<rparr>) (begin_it L) of Inl e \<Rightarrow> Inl e
            | Inr it \<Rightarrow> Inr (L\<lparr>heap := h', begin_it := it\<rparr>)))"

definition Insert :: "'a OrderedList \<Rightarrow> 'a \<Rightarrow> (error + 'a OrderedList) option" where
  "Insert L k =
     (case FindGreaterOrEqual L k (Some None) of None \<Rightarrow> None
      | Some (Inl e) \<Rightarrow> Some (Inl e)
      | Some (Inr (x, out)) \<Rightarrow>
          Some (let prev = (case out of None \<Rightarrow> None | Some v \<Rightarrow> v) in
            case (if x = None then Inr True
                  else case deref (heap L) x of Inl e \<Rightarrow> Inl e
                    | Inr nd \<Rightarrow> Inr (\<not> Equal L k (key nd))) of
              Inl e \<Rightarrow> Inl e
            | Inr ok \<Rightarrow>
                if \<not> ok then Inl AssertFailed
                else
                  (let (h1, a) = NewNode (heap L) k in
                   case deref h1 prev of Inl e \<Rightarrow> Inl e
                   | Inr pn \<Rightarrow>
                      (case update_node h1 (Some a) (NoBarrierSetNext (NoBarrierNext pn)) of
                         Inl e \<Rightarrow> Inl e
                       | Inr h2 \<Rightarrow>
                          (case update_node h2 prev (SetNext (Some a)) of Inl e \<Rightarrow> Inl e
                           | Inr h3 \<Rightarrow> Inr (L\<lparr>heap := h3\<rparr>))))))"

definition Contains :: "'a OrderedList \<Rightarrow> 'a \<Rightarrow> (error + bool) option" where
  "Contains L k =
     (case FindGreaterOrEqual L k None of None \<Rightarrow> None
      | Some (Inl e) \<Rightarrow> Some (Inl e)
      | Some (Inr (x, _)) \<Rightarrow>
          Some (if x = None then Inr False
                else case deref (heap L) x of Inl e \<Rightarrow> Inl e
                  | Inr nd \<Rightarrow> Inr (Equal L k (key nd))))"

subsection \<open>The comparator of \<^verbatim>\<open>orderedlist_test.cc\<close>\<close>

definition Comparator :: "32 word \<Rightarrow> 32 word \<Rightarrow> int" where
  "Comparator a b = (if a < b then - 1 else (if a \<noteq> b then 1 else 0))"

text \<open>
  A second comparator a caller may pass, used as an input below: the comparator of the
  test with its arguments exchanged, which orders the keys descending.
\<close>

definition Descending :: "32 word \<Rightarrow> 32 word \<Rightarrow> int" where
  "Descending a b = Comparator b a"

subsection \<open>Driving the list: a run of insertions, full traversals\<close>

text \<open>
  \<open>Insert_all\<close> is a run of \<^verbatim>\<open>Insert\<close> calls on one list, as \<^verbatim>\<open>main\<close> of the test
  does; it stops at the first call that fails. \<open>build\<close> constructs the list first.
\<close>

fun Insert_all :: "'a OrderedList \<Rightarrow> 'a list \<Rightarrow> (error + 'a OrderedList) option" where
  "Insert_all L [] = Some (Inr L)"
| "Insert_all L (k # ks) =
     (case Insert L k of None \<Rightarrow> None
      | Some (Inl e) \<Rightarrow> Some (Inl e)
      | Some (Inr L') \<Rightarrow> Insert_all L' ks)"

definition build :: "('a::zero \<Rightarrow> 'a \<Rightarrow> int) \<Rightarrow> 'a list \<Rightarrow> (error + 'a OrderedList) option" where
  "build cmp ks = (case new_OrderedList cmp of Inl e \<Rightarrow> Some (Inl e) | Inr L \<Rightarrow> Insert_all L ks)"

text \<open>
  A full forward iteration is \<^verbatim>\<open>SeekToFirst()\<close>, then \<^verbatim>\<open>key()\<close> and \<^verbatim>\<open>Next()\<close> while
  \<^verbatim>\<open>Valid()\<close>; a full backward iteration is \<^verbatim>\<open>SeekToLast()\<close>, then \<^verbatim>\<open>key()\<close> and
  \<^verbatim>\<open>Prev()\<close> while \<^verbatim>\<open>Valid()\<close>. Both return the keys in the order visited.
\<close>

partial_function (option) forward_loop ::
  "'a OrderedList \<Rightarrow> Iterator \<Rightarrow> 'a list \<Rightarrow> (error + 'a list) option" where
  "forward_loop L it acc =
     (if Valid it then
        (case Iterator_key L it of Inl e \<Rightarrow> Some (Inl e)
         | Inr k \<Rightarrow>
            (case Next L it of Inl e \<Rightarrow> Some (Inl e)
             | Inr it' \<Rightarrow> forward_loop L it' (acc @ [k])))
      else Some (Inr acc))"

declare forward_loop.simps [code]

definition forward_keys :: "'a OrderedList \<Rightarrow> (error + 'a list) option" where
  "forward_keys L =
     (case SeekToFirst L Iterator_init of Inl e \<Rightarrow> Some (Inl e)
      | Inr it \<Rightarrow> forward_loop L it [])"

partial_function (option) backward_loop ::
  "'a OrderedList \<Rightarrow> Iterator \<Rightarrow> 'a list \<Rightarrow> (error + 'a list) option" where
  "backward_loop L it acc =
     (if Valid it then
        (case Iterator_key L it of Inl e \<Rightarrow> Some (Inl e)
         | Inr k \<Rightarrow>
            (case Prev L it of None \<Rightarrow> None
             | Some (Inl e) \<Rightarrow> Some (Inl e)
             | Some (Inr it') \<Rightarrow> backward_loop L it' (acc @ [k])))
      else Some (Inr acc))"

declare backward_loop.simps [code]

definition backward_keys :: "'a OrderedList \<Rightarrow> (error + 'a list) option" where
  "backward_keys L =
     (case SeekToLast L Iterator_init of None \<Rightarrow> None
      | Some (Inl e) \<Rightarrow> Some (Inl e)
      | Some (Inr it) \<Rightarrow> backward_loop L it [])"

subsection \<open>Well-formed list states\<close>

text \<open>
  \<open>chain h p as\<close>: following the links from \<open>p\<close> visits the addresses \<open>as\<close>, all
  allocated, and then reaches \<^verbatim>\<open>nullptr\<close>. \<open>list_inv L as\<close>: the chain of \<open>L\<close> is the
  sentinel followed by the stored nodes \<open>as\<close>, no node occurs twice, and the sentinel
  holds the key \<^verbatim>\<open>T(0)\<close>. \<open>I1 L as\<close> is invariant I1 of the specification: the keys
  of the stored nodes are strictly ascending under the comparator.
\<close>

fun chain :: "'a heap \<Rightarrow> ptr \<Rightarrow> nat list \<Rightarrow> bool" where
  "chain h p [] = (p = None)"
| "chain h p (a # as) = (p = Some a \<and> a < length h \<and> chain h (next_link (h ! a)) as)"

definition keys_at :: "'a heap \<Rightarrow> nat list \<Rightarrow> 'a list" where
  "keys_at h as = map (\<lambda>a. key (h ! a)) as"

definition list_inv :: "'a::zero OrderedList \<Rightarrow> nat list \<Rightarrow> bool" where
  "list_inv L as =
     (chain (heap L) (Some (head_ptr L)) (head_ptr L # as) \<and> distinct (head_ptr L # as)
      \<and> key (heap L ! head_ptr L) = 0)"

definition before :: "('a \<Rightarrow> 'a \<Rightarrow> int) \<Rightarrow> 'a \<Rightarrow> 'a \<Rightarrow> bool" where
  "before cmp a b = (cmp a b < 0)"

definition I1 :: "'a OrderedList \<Rightarrow> nat list \<Rightarrow> bool" where
  "I1 L as = sorted_wrt (before (compare_fn L)) (keys_at (heap L) as)"

text \<open>
  The comparator contract of the specification: a three-way comparison of a total
  order, zero exactly on equal keys.
\<close>

definition total_order_cmp :: "('a \<Rightarrow> 'a \<Rightarrow> int) \<Rightarrow> bool" where
  "total_order_cmp cmp =
     ((\<forall>a b. cmp a b = 0 \<longleftrightarrow> a = b) \<and> (\<forall>a b. cmp a b < 0 \<longleftrightarrow> 0 < cmp b a)
      \<and> (\<forall>a b c. cmp a b < 0 \<longrightarrow> cmp b c < 0 \<longrightarrow> cmp a c < 0))"


subsection \<open>The abstract view of an insertion\<close>

text \<open>
  These describe, on the list of stored addresses, what the code above does on the
  heap; the lemmas below relate the two. \<open>node_before L k a\<close>: the key of node \<open>a\<close>
  is ordered before \<open>k\<close>. \<open>link_after h lp k\<close>: the heap after a node with key \<open>k\<close>
  was allocated and linked in behind the node \<open>lp\<close>. \<open>insert_key\<close> places a key in a
  list of keys behind the leading keys ordered before it.
\<close>

definition node_before :: "'a OrderedList \<Rightarrow> 'a \<Rightarrow> nat \<Rightarrow> bool" where
  "node_before L k a = (compare_fn L (key (heap L ! a)) k < 0)"

definition link_after :: "'a heap \<Rightarrow> nat \<Rightarrow> 'a \<Rightarrow> 'a heap" where
  "link_after h lp k =
     ((h @ [\<lparr>key = k, next_link = None\<rparr>])
        [length h := \<lparr>key = k, next_link = next_link (h ! lp)\<rparr>])
        [lp := (h ! lp)\<lparr>next_link := Some (length h)\<rparr>]"

definition stored_after_insert :: "'a OrderedList \<Rightarrow> 'a \<Rightarrow> nat list \<Rightarrow> nat list" where
  "stored_after_insert L k as =
     takeWhile (node_before L k) as @ length (heap L) # dropWhile (node_before L k) as"

definition Insert_result :: "'a OrderedList \<Rightarrow> 'a \<Rightarrow> nat list \<Rightarrow> 'a OrderedList" where
  "Insert_result L k as =
     L\<lparr>heap := link_after (heap L) (last (head_ptr L # takeWhile (node_before L k) as)) k\<rparr>"

definition insert_key :: "('a \<Rightarrow> 'a \<Rightarrow> int) \<Rightarrow> 'a \<Rightarrow> 'a list \<Rightarrow> 'a list" where
  "insert_key cmp k xs = takeWhile (\<lambda>x. cmp x k < 0) xs @ k # dropWhile (\<lambda>x. cmp x k < 0) xs"

text \<open>
  The list after \<^verbatim>\<open>Insert(342)\<close>, \<^verbatim>\<open>Insert(65)\<close>, \<^verbatim>\<open>Insert(413)\<close>, the first values
  of the test, on a new list.
\<close>

definition example_list :: "32 word OrderedList" where
  "example_list =
     \<lparr>begin_it = \<lparr>node_ptr = None\<rparr>, end_it = \<lparr>node_ptr = None\<rparr>, compare_fn = Comparator,
      head_ptr = 0,
      heap = [\<lparr>key = 0, next_link = Some 2\<rparr>, \<lparr>key = 342, next_link = Some 3\<rparr>,
              \<lparr>key = 65, next_link = Some 1\<rparr>, \<lparr>key = 413, next_link = None\<rparr>]\<rparr>"

text \<open>
  \<open>with_sentinel_key L v\<close> is the list \<open>L\<close> with the key of its sentinel replaced by
  \<open>v\<close>, the links unchanged: what the chain would hold for a key type whose \<^verbatim>\<open>T(0)\<close>
  is \<open>v\<close>. It serves to state which scans read the sentinel's key.
\<close>

definition with_sentinel_key :: "'a OrderedList \<Rightarrow> 'a \<Rightarrow> 'a OrderedList" where
  "with_sentinel_key L v =
     L\<lparr>heap := (heap L)[head_ptr L := (heap L ! head_ptr L)\<lparr>key := v\<rparr>]\<rparr>"

section \<open>Properties\<close>

subsection \<open>The freshly constructed list\<close>

lemma new_OrderedList_eq:
  "new_OrderedList cmp =
     Inr \<lparr>begin_it = \<lparr>node_ptr = None\<rparr>, end_it = \<lparr>node_ptr = None\<rparr>, compare_fn = cmp,
          head_ptr = 0, heap = [\<lparr>key = 0, next_link = None\<rparr>]\<rparr>"
  by (simp add: new_OrderedList_def NewNode_def update_node_def SetNext_def SeekToFirst_def
      deref_def Iterator_init_def Node_Next_def)

text \<open>
  C9. On the list the constructor returns (keys \<^verbatim>\<open>uint32_t\<close>, the comparator of the
  test), \<^verbatim>\<open>Contains(5)\<close> returns false, and \<^verbatim>\<open>SeekToFirst()\<close> and \<^verbatim>\<open>SeekToLast()\<close>
  each leave a fresh iterator invalid.
\<close>

theorem empty_list_queries:
  "\<exists>L it1 it2. new_OrderedList Comparator = Inr L
     \<and> Contains L 5 = Some (Inr False)
     \<and> SeekToFirst L Iterator_init = Inr it1 \<and> \<not> Valid it1
     \<and> SeekToLast L Iterator_init = Some (Inr it2) \<and> \<not> Valid it2"
  by (simp add: new_OrderedList_eq Contains_def FindGreaterOrEqual_def
      FindGreaterOrEqual_loop.simps KeyIsAfterNode_def deref_def Comparator_def Node_Next_def
      SeekToFirst_def SeekToLast_def FindLast_def FindLast_loop.simps Iterator_init_def
      Valid_def)

lemma list_inv_new:
  "new_OrderedList cmp = Inr L \<Longrightarrow> list_inv L [] \<and> I1 L [] \<and> compare_fn L = cmp"
  by (auto simp: new_OrderedList_eq list_inv_def I1_def keys_at_def)

subsection \<open>Evaluation on concrete lists\<close>

lemmas eval_defs =
  build_def new_OrderedList_eq Insert_def Contains_def Seek_def FindGreaterOrEqual_def
  FindGreaterOrEqual_loop.simps KeyIsAfterNode_def deref_def update_node_def NewNode_def
  Node_Next_def NoBarrierNext_def SetNext_def NoBarrierSetNext_def Equal_def Comparator_def
  FindLessThan_def FindLessThan_loop.simps FindLast_def FindLast_loop.simps
  Iterator_init_def Valid_def Iterator_key_def Next_def Prev_def SeekToFirst_def
  SeekToLast_def forward_keys_def forward_loop.simps backward_keys_def backward_loop.simps

lemma build_example: "build Comparator [342, 65, 413] = Some (Inr example_list)"
  by (simp add: eval_defs example_list_def)

lemma example_list_inv: "list_inv example_list [2, 1, 3] \<and> I1 example_list [2, 1, 3]"
  by (simp add: list_inv_def I1_def example_list_def keys_at_def before_def Comparator_def)

lemma total_order_Comparator: "total_order_cmp Comparator"
  unfolding total_order_cmp_def Comparator_def by auto

lemma total_order_cmp_refl: "total_order_cmp cmp \<Longrightarrow> cmp a a = 0"
  unfolding total_order_cmp_def by blast

lemma total_order_cmp_irrefl: "total_order_cmp cmp \<Longrightarrow> \<not> cmp a a < 0"
  using total_order_cmp_refl [of cmp a] by simp

subsection \<open>Chains\<close>

lemma chain_cong:
  "chain h p as \<Longrightarrow> length h \<le> length h' \<Longrightarrow> \<forall>a\<in>set as. h' ! a = h ! a \<Longrightarrow> chain h' p as"
  by (induction as arbitrary: p) auto

lemma chain_bound: "chain h p as \<Longrightarrow> a \<in> set as \<Longrightarrow> a < length h"
  by (induction as arbitrary: p) auto

lemma list_inv_head: "list_inv L as \<Longrightarrow> head_ptr L < length (heap L)"
  by (simp add: list_inv_def)

lemma list_inv_bound: "list_inv L as \<Longrightarrow> a \<in> set as \<Longrightarrow> a < length (heap L)"
  unfolding list_inv_def using chain_bound [of "heap L" _ "head_ptr L # as" a] by auto

lemma last_pre_bound:
  assumes inv: "list_inv L as"
  shows "last (head_ptr L # takeWhile P as) < length (heap L)"
proof -
  have "last (head_ptr L # takeWhile P as) \<in> set (head_ptr L # as)"
    using last_in_set [of "head_ptr L # takeWhile P as"]
    by (auto dest: set_takeWhileD)
  then show ?thesis
    using list_inv_head [OF inv] list_inv_bound [OF inv] by auto
qed

subsection \<open>\<^verbatim>\<open>FindGreaterOrEqual\<close> on a well-formed list\<close>

lemma FindGreaterOrEqual_loop_chain:
  "chain (heap L) x as \<Longrightarrow>
   FindGreaterOrEqual_loop L k x prev =
     Some (Inr (case dropWhile (node_before L k) as of [] \<Rightarrow> None | b # _ \<Rightarrow> Some b,
                if takeWhile (node_before L k) as = [] \<or> prev = None then prev
                else Some (Some (last (takeWhile (node_before L k) as)))))"
proof (induction as arbitrary: x prev)
  case Nil
  then show ?case by (simp add: FindGreaterOrEqual_loop.simps)
next
  case (Cons a as)
  from Cons.prems have x: "x = Some a" and a: "a < length (heap L)"
    and rest: "chain (heap L) (next_link (heap L ! a)) as" by simp_all
  show ?case
  proof (cases "node_before L k a")
    case True
    have "FindGreaterOrEqual_loop L k x prev =
          FindGreaterOrEqual_loop L k (next_link (heap L ! a)) (if prev \<noteq> None then Some x else prev)"
      using True x a
      by (subst FindGreaterOrEqual_loop.simps)
         (simp add: KeyIsAfterNode_def deref_def node_before_def Node_Next_def)
    also note Cons.IH [OF rest]
    finally show ?thesis using True x by (auto split: list.splits)
  next
    case False
    then show ?thesis using x a
      by (subst FindGreaterOrEqual_loop.simps)
         (simp add: KeyIsAfterNode_def deref_def node_before_def)
  qed
qed

lemma FindGreaterOrEqual_after:
  assumes inv: "list_inv L as" and after: "compare_fn L 0 k < 0"
  shows "FindGreaterOrEqual L k prev =
     Some (Inr (case dropWhile (node_before L k) as of [] \<Rightarrow> None | b # _ \<Rightarrow> Some b,
                if prev = None then None
                else Some (Some (last (head_ptr L # takeWhile (node_before L k) as)))))"
proof -
  have c: "chain (heap L) (Some (head_ptr L)) (head_ptr L # as)"
    using inv by (simp add: list_inv_def)
  have h: "node_before L k (head_ptr L)"
    using inv after by (simp add: list_inv_def node_before_def)
  show ?thesis
    unfolding FindGreaterOrEqual_def FindGreaterOrEqual_loop_chain [OF c]
    using h by simp
qed

lemma FindGreaterOrEqual_not_after:
  assumes inv: "list_inv L as" and after: "\<not> compare_fn L 0 k < 0"
  shows "FindGreaterOrEqual L k prev = Some (Inr (Some (head_ptr L), prev))"
proof -
  have c: "chain (heap L) (Some (head_ptr L)) (head_ptr L # as)"
    using inv by (simp add: list_inv_def)
  have h: "\<not> node_before L k (head_ptr L)"
    using inv after by (simp add: list_inv_def node_before_def)
  show ?thesis
    unfolding FindGreaterOrEqual_def FindGreaterOrEqual_loop_chain [OF c]
    using h by simp
qed

subsection \<open>Linking a new node into the chain\<close>

lemma length_link_after [simp]: "length (link_after h lp k) = Suc (length h)"
  by (simp add: link_after_def)

lemma link_after_other:
  "c < length h \<Longrightarrow> c \<noteq> lp \<Longrightarrow> link_after h lp k ! c = h ! c"
  by (simp add: link_after_def nth_append)

lemma link_after_prev:
  "lp < length h \<Longrightarrow> link_after h lp k ! lp = (h ! lp)\<lparr>next_link := Some (length h)\<rparr>"
  by (simp add: link_after_def)

lemma link_after_new:
  "lp < length h \<Longrightarrow> link_after h lp k ! length h = \<lparr>key = k, next_link = next_link (h ! lp)\<rparr>"
  by (simp add: link_after_def)

lemma key_link_after:
  "lp < length h \<Longrightarrow> c < length h \<Longrightarrow> key (link_after h lp k ! c) = key (h ! c)"
  by (cases "c = lp") (simp_all add: link_after_prev link_after_other)

lemma chain_link_after:
  "chain h p (pre @ post) \<Longrightarrow> pre \<noteq> [] \<Longrightarrow> distinct (pre @ post) \<Longrightarrow>
   chain (link_after h (last pre) k) p (pre @ length h # post)"
proof (induction pre arbitrary: p)
  case Nil
  then show ?case by simp
next
  case (Cons b pre)
  from Cons.prems have p: "p = Some b" and b: "b < length h"
    and rest: "chain h (next_link (h ! b)) (pre @ post)" by simp_all
  show ?case
  proof (cases "pre = []")
    case True
    have post: "chain h (next_link (h ! b)) post" using rest True by simp
    have "\<forall>c\<in>set post. link_after h b k ! c = h ! c"
    proof
      fix c assume c: "c \<in> set post"
      then have "c < length h" by (rule chain_bound [OF post])
      moreover have "c \<noteq> b" using c Cons.prems(3) True by auto
      ultimately show "link_after h b k ! c = h ! c" by (rule link_after_other)
    qed
    then have "chain (link_after h b k) (next_link (h ! b)) post"
      using chain_cong [OF post, of "link_after h b k"] by simp
    then show ?thesis using True p b
      by (simp add: link_after_prev link_after_new)
  next
    case False
    then have ne: "b \<noteq> last pre" using Cons.prems(3) by auto
    have "chain (link_after h (last pre) k) (next_link (h ! b)) (pre @ length h # post)"
      using Cons.IH [OF rest False] Cons.prems(3) by simp
    then show ?thesis using False p b ne by (simp add: link_after_other)
  qed
qed

lemma keys_at_link_after:
  "lp < length h \<Longrightarrow> \<forall>c\<in>set cs. c < length h \<Longrightarrow>
   keys_at (link_after h lp k) cs = keys_at h cs"
  by (simp add: keys_at_def key_link_after)

lemma distinct_insert_mid:
  "distinct (xs @ ys) \<Longrightarrow> a \<notin> set (xs @ ys) \<Longrightarrow> distinct (xs @ a # ys)"
  by auto

subsection \<open>\<^verbatim>\<open>Insert\<close>\<close>

lemma Insert_after:
  assumes inv: "list_inv L as" and after: "compare_fn L 0 k < 0"
  shows "Insert L k =
     Some (case dropWhile (node_before L k) as of
             [] \<Rightarrow> Inr (L\<lparr>heap := link_after (heap L) (last (head_ptr L # takeWhile (node_before L k) as)) k\<rparr>)
           | b # _ \<Rightarrow>
               if compare_fn L k (key (heap L ! b)) = 0 then Inl AssertFailed
               else Inr (L\<lparr>heap := link_after (heap L) (last (head_ptr L # takeWhile (node_before L k) as)) k\<rparr>))"
proof -
  let ?lp = "last (head_ptr L # takeWhile (node_before L k) as)"
  have "?lp \<in> set (head_ptr L # as)"
    using last_in_set [of "head_ptr L # takeWhile (node_before L k) as"]
    by (auto dest: set_takeWhileD)
  then have lp: "?lp < length (heap L)"
    using list_inv_head [OF inv] list_inv_bound [OF inv] by auto
  have upd: "\<And>n. deref (heap L @ [n]) (Some ?lp) = Inr (heap L ! ?lp)"
    using lp by (simp add: deref_def nth_append)
  have heap: "(case update_node (heap L @ [\<lparr>key = k, next_link = None\<rparr>]) (Some (length (heap L)))
                  (NoBarrierSetNext (NoBarrierNext (heap L ! ?lp))) of Inl e \<Rightarrow> Inl e
               | Inr h2 \<Rightarrow> (case update_node h2 (Some ?lp) (SetNext (Some (length (heap L)))) of
                    Inl e \<Rightarrow> Inl e | Inr h3 \<Rightarrow> Inr (L\<lparr>heap := h3\<rparr>)))
              = Inr (L\<lparr>heap := link_after (heap L) ?lp k\<rparr>)"
    using lp
    by (simp add: update_node_def NoBarrierSetNext_def NoBarrierNext_def SetNext_def
        link_after_def nth_append nth_list_update)
  show ?thesis
  proof (cases "dropWhile (node_before L k) as")
    case Nil
    show ?thesis
      unfolding Insert_def FindGreaterOrEqual_after [OF inv after] Nil
      using upd heap by (simp add: NewNode_def del: last.simps)
  next
    case (Cons b bs)
    then have "b \<in> set as" using set_dropWhileD [of b "node_before L k" as] by simp
    then have b: "b < length (heap L)" by (rule list_inv_bound [OF inv])
    show ?thesis
      unfolding Insert_def FindGreaterOrEqual_after [OF inv after] Cons
      using b upd heap by (simp add: NewNode_def deref_def Equal_def del: last.simps)
  qed
qed

lemma Insert_not_after:
  assumes inv: "list_inv L as" and after: "\<not> compare_fn L 0 k < 0"
  shows "Insert L k = Some (Inl (if compare_fn L k 0 = 0 then AssertFailed else NullDeref))"
  unfolding Insert_def FindGreaterOrEqual_not_after [OF inv after]
  using inv by (simp add: list_inv_def deref_def Equal_def NewNode_def)

lemma Insert_result_fields [simp]:
  "compare_fn (Insert_result L k as) = compare_fn L"
  "head_ptr (Insert_result L k as) = head_ptr L"
  by (simp_all add: Insert_result_def)

lemma Insert_success:
  assumes inv: "list_inv L as" and ok: "Insert L k = Some (Inr L')"
  shows "L' = Insert_result L k as \<and> compare_fn L 0 k < 0
         \<and> (case dropWhile (node_before L k) as of [] \<Rightarrow> True
             | b # _ \<Rightarrow> compare_fn L k (key (heap L ! b)) \<noteq> 0)"
proof (cases "compare_fn L 0 k < 0")
  case True
  show ?thesis
  proof (cases "dropWhile (node_before L k) as")
    case Nil
    show ?thesis
      using ok True unfolding Insert_after [OF inv True] Insert_result_def Nil
      by (simp del: last.simps)
  next
    case (Cons b bs)
    show ?thesis
      using ok True unfolding Insert_after [OF inv True] Insert_result_def Cons
      by (simp del: last.simps split: if_splits)
  qed
next
  case False
  show ?thesis using ok unfolding Insert_not_after [OF inv False] by simp
qed

lemma list_inv_Insert_result:
  assumes inv: "list_inv L as"
  shows "list_inv (Insert_result L k as) (stored_after_insert L k as)"
proof -
  let ?P = "node_before L k"
  let ?pre = "head_ptr L # takeWhile ?P as"
  let ?h' = "link_after (heap L) (last ?pre) k"
  have split: "?pre @ dropWhile ?P as = head_ptr L # as" by simp
  have c: "chain (heap L) (Some (head_ptr L)) (?pre @ dropWhile ?P as)"
    and d: "distinct (?pre @ dropWhile ?P as)"
    using inv unfolding split by (simp_all add: list_inv_def)
  have "chain ?h' (Some (head_ptr L)) (?pre @ length (heap L) # dropWhile ?P as)"
    by (rule chain_link_after [OF c _ d]) simp
  then have 1: "chain ?h' (Some (head_ptr L)) (head_ptr L # stored_after_insert L k as)"
    by (simp add: stored_after_insert_def)
  have fresh: "length (heap L) \<notin> set (head_ptr L # as)"
    using list_inv_head [OF inv] list_inv_bound [OF inv] by auto
  have "length (heap L) \<notin> set (?pre @ dropWhile ?P as)"
    using fresh by (simp only: split not_False_eq_True)
  then have "distinct (?pre @ length (heap L) # dropWhile ?P as)"
    by (rule distinct_insert_mid [OF d])
  then have 2: "distinct (head_ptr L # stored_after_insert L k as)"
    by (simp add: stored_after_insert_def)
  have 3: "key (?h' ! head_ptr L) = 0"
    using key_link_after [OF last_pre_bound [OF inv] list_inv_head [OF inv]] inv
    by (simp add: list_inv_def)
  show ?thesis
    unfolding list_inv_def Insert_result_def using 1 2 3 by (simp del: last.simps chain.simps)
qed

lemma keys_Insert_result:
  assumes inv: "list_inv L as"
  shows "keys_at (heap (Insert_result L k as)) (stored_after_insert L k as) =
         insert_key (compare_fn L) k (keys_at (heap L) as)"
proof -
  let ?P = "node_before L k"
  let ?lp = "last (head_ptr L # takeWhile ?P as)"
  have lp: "?lp < length (heap L)" by (rule last_pre_bound [OF inv])
  have old: "\<And>cs. set cs \<subseteq> set as \<Longrightarrow> keys_at (link_after (heap L) ?lp k) cs = keys_at (heap L) cs"
    using list_inv_bound [OF inv] by (intro keys_at_link_after [OF lp]) auto
  have new: "key (link_after (heap L) ?lp k ! length (heap L)) = k"
    using lp by (simp add: link_after_new)
  have P: "?P = (\<lambda>x. compare_fn L x k < 0) \<circ> (\<lambda>a. key (heap L ! a))"
    by (simp add: fun_eq_iff node_before_def)
  have tw: "keys_at (heap L) (takeWhile ?P as) = takeWhile (\<lambda>x. compare_fn L x k < 0) (keys_at (heap L) as)"
    unfolding keys_at_def P by (simp add: takeWhile_map)
  have dw: "keys_at (heap L) (dropWhile ?P as) = dropWhile (\<lambda>x. compare_fn L x k < 0) (keys_at (heap L) as)"
    unfolding keys_at_def P by (simp add: dropWhile_map)
  have "keys_at (link_after (heap L) ?lp k) (stored_after_insert L k as) =
        keys_at (link_after (heap L) ?lp k) (takeWhile ?P as) @ k
          # keys_at (link_after (heap L) ?lp k) (dropWhile ?P as)"
    using new by (simp add: stored_after_insert_def keys_at_def)
  also have "keys_at (link_after (heap L) ?lp k) (takeWhile ?P as) = keys_at (heap L) (takeWhile ?P as)"
    by (rule old) (auto dest: set_takeWhileD)
  also have "keys_at (link_after (heap L) ?lp k) (dropWhile ?P as) = keys_at (heap L) (dropWhile ?P as)"
    by (rule old) (auto dest: set_dropWhileD)
  finally show ?thesis
    by (simp add: Insert_result_def insert_key_def tw dw)
qed

lemma insert_key_Cons:
  "insert_key cmp k (x # xs) = (if cmp x k < 0 then x # insert_key cmp k xs else k # x # xs)"
  by (simp add: insert_key_def)

lemma set_insert_key [simp]: "set (insert_key cmp k xs) = insert k (set xs)"
  by (induction xs) (auto simp: insert_key_Cons insert_key_def)

lemma length_insert_key [simp]: "length (insert_key cmp k xs) = Suc (length xs)"
  by (induction xs) (auto simp: insert_key_Cons insert_key_def)

lemma length_stored_after_insert [simp]:
  "length (stored_after_insert L k as) = Suc (length as)"
proof -
  have "length as = length (takeWhile (node_before L k) as @ dropWhile (node_before L k) as)"
    by simp
  then show ?thesis
    unfolding stored_after_insert_def by (simp only: length_append list.size)
qed

lemma sorted_insert_key_guard:
  assumes cmp: "total_order_cmp cmp"
  shows "sorted_wrt (before cmp) xs \<Longrightarrow>
    (case dropWhile (\<lambda>x. cmp x k < 0) xs of [] \<Rightarrow> True | y # _ \<Rightarrow> cmp k y \<noteq> 0) \<Longrightarrow>
    sorted_wrt (before cmp) (insert_key cmp k xs)"
proof (induction xs)
  case Nil
  then show ?case by (simp add: insert_key_def)
next
  case (Cons x xs)
  show ?case
  proof (cases "cmp x k < 0")
    case True
    then show ?thesis using Cons by (auto simp: insert_key_Cons before_def)
  next
    case False
    then have "cmp k x \<noteq> 0" using Cons.prems(2) by simp
    then have "cmp x k \<noteq> 0" using cmp unfolding total_order_cmp_def by metis
    with False have "0 < cmp x k" by arith
    then have kx: "cmp k x < 0" using cmp unfolding total_order_cmp_def by blast
    have "\<forall>y\<in>set xs. cmp k y < 0"
    proof
      fix y assume "y \<in> set xs"
      then have "cmp x y < 0" using Cons.prems(1) by (simp add: before_def)
      with kx show "cmp k y < 0" using cmp unfolding total_order_cmp_def by blast
    qed
    then show ?thesis using False kx Cons.prems(1) by (simp add: insert_key_Cons before_def)
  qed
qed

lemma dropWhile_keys_at:
  "dropWhile (\<lambda>x. compare_fn L x k < 0) (keys_at (heap L) as) =
   keys_at (heap L) (dropWhile (node_before L k) as)"
proof -
  have P: "node_before L k = (\<lambda>x. compare_fn L x k < 0) \<circ> (\<lambda>a. key (heap L ! a))"
    by (simp add: fun_eq_iff node_before_def)
  show ?thesis unfolding keys_at_def P by (simp add: dropWhile_map)
qed

lemma I1_Insert_result_guard:
  assumes cmp: "total_order_cmp (compare_fn L)" and inv: "list_inv L as"
    and ord: "I1 L as"
    and guard: "case dropWhile (node_before L k) as of [] \<Rightarrow> True
                | b # _ \<Rightarrow> compare_fn L k (key (heap L ! b)) \<noteq> 0"
  shows "I1 (Insert_result L k as) (stored_after_insert L k as)"
proof -
  have "case dropWhile (\<lambda>x. compare_fn L x k < 0) (keys_at (heap L) as) of [] \<Rightarrow> True
        | y # _ \<Rightarrow> compare_fn L k y \<noteq> 0"
  proof (cases "dropWhile (node_before L k) as")
    case Nil
    show ?thesis unfolding dropWhile_keys_at Nil by (simp add: keys_at_def)
  next
    case (Cons b bs)
    show ?thesis using guard unfolding dropWhile_keys_at Cons by (simp add: keys_at_def)
  qed
  then show ?thesis
    unfolding I1_def keys_Insert_result [OF inv] Insert_result_fields
    using sorted_insert_key_guard [OF cmp] ord by (simp add: I1_def)
qed

lemma Insert_fresh:
  assumes cmp: "total_order_cmp (compare_fn L)" and inv: "list_inv L as"
    and after: "compare_fn L 0 k < 0" and new: "k \<notin> set (keys_at (heap L) as)"
  shows "Insert L k = Some (Inr (Insert_result L k as))"
proof (cases "dropWhile (node_before L k) as")
  case Nil
  then show ?thesis
    unfolding Insert_after [OF inv after] Insert_result_def by (simp only: list.case)
next
  case (Cons b bs)
  then have "b \<in> set as" using set_dropWhileD [of b "node_before L k" as] by simp
  then have "key (heap L ! b) \<noteq> k" using new by (auto simp: keys_at_def)
  then have "compare_fn L k (key (heap L ! b)) \<noteq> 0"
    using cmp unfolding total_order_cmp_def by metis
  then show ?thesis
    unfolding Insert_after [OF inv after] Insert_result_def Cons by (simp only: list.case if_False)
qed

lemma Insert_all_sorted:
  "total_order_cmp (compare_fn L) \<Longrightarrow> list_inv L as \<Longrightarrow> I1 L as \<Longrightarrow> distinct ks \<Longrightarrow>
   set ks \<inter> set (keys_at (heap L) as) = {} \<Longrightarrow> \<forall>k\<in>set ks. compare_fn L 0 k < 0 \<Longrightarrow>
   \<exists>L' as'. Insert_all L ks = Some (Inr L') \<and> compare_fn L' = compare_fn L
      \<and> list_inv L' as' \<and> I1 L' as'
      \<and> set (keys_at (heap L') as') = set (keys_at (heap L) as) \<union> set ks
      \<and> length as' = length as + length ks"
proof (induction ks arbitrary: L as)
  case Nil
  then show ?case by auto
next
  case (Cons k ks)
  let ?L = "Insert_result L k as" and ?as = "stored_after_insert L k as"
  have new: "k \<notin> set (keys_at (heap L) as)" and after: "compare_fn L 0 k < 0"
    using Cons.prems by auto
  have step: "Insert L k = Some (Inr ?L)"
    by (rule Insert_fresh [OF Cons.prems(1,2) after new])
  have inv: "list_inv ?L ?as" by (rule list_inv_Insert_result [OF Cons.prems(2)])
  have ord: "I1 ?L ?as"
    using Insert_success [OF Cons.prems(2) step] I1_Insert_result_guard [OF Cons.prems(1,2,3)]
    by simp
  have keys: "set (keys_at (heap ?L) ?as) = insert k (set (keys_at (heap L) as))"
    by (simp add: keys_Insert_result [OF Cons.prems(2)])
  have "\<exists>L' as'. Insert_all ?L ks = Some (Inr L') \<and> compare_fn L' = compare_fn ?L
      \<and> list_inv L' as' \<and> I1 L' as'
      \<and> set (keys_at (heap L') as') = set (keys_at (heap ?L) ?as) \<union> set ks
      \<and> length as' = length ?as + length ks"
  proof (rule Cons.IH [OF _ inv ord])
    show "total_order_cmp (compare_fn ?L)" using Cons.prems(1) by simp
    show "distinct ks" using Cons.prems(4) by simp
    show "set ks \<inter> set (keys_at (heap ?L) ?as) = {}"
      unfolding keys using Cons.prems(4,5) by auto
    show "\<forall>k\<in>set ks. compare_fn ?L 0 k < 0" using Cons.prems(6) by simp
  qed
  then show ?case unfolding keys using step by auto
qed

lemma Insert_all_inv:
  "list_inv L as \<Longrightarrow> Insert_all L ks = Some (Inr L') \<Longrightarrow>
   \<exists>as'. list_inv L' as' \<and> compare_fn L' = compare_fn L
     \<and> (total_order_cmp (compare_fn L) \<longrightarrow> I1 L as \<longrightarrow> I1 L' as')"
proof (induction ks arbitrary: L as)
  case Nil
  then show ?case by auto
next
  case (Cons k ks)
  from Cons.prems(2) obtain L1 where step: "Insert L k = Some (Inr L1)"
    and rest: "Insert_all L1 ks = Some (Inr L')"
    by (auto split: option.splits sum.splits)
  note s = Insert_success [OF Cons.prems(1) step]
  have inv1: "list_inv L1 (stored_after_insert L k as)"
    using s list_inv_Insert_result [OF Cons.prems(1)] by simp
  have c1: "compare_fn L1 = compare_fn L" using s by simp
  have ord1: "total_order_cmp (compare_fn L) \<longrightarrow> I1 L as \<longrightarrow> I1 L1 (stored_after_insert L k as)"
    using s I1_Insert_result_guard [OF _ Cons.prems(1)] by simp
  from Cons.IH [OF inv1 rest] show ?case using c1 ord1 by auto
qed

lemma build_inv:
  assumes "build cmp ks = Some (Inr L)"
  shows "\<exists>as. list_inv L as \<and> compare_fn L = cmp \<and> (total_order_cmp cmp \<longrightarrow> I1 L as)"
proof -
  obtain L0 where L0: "new_OrderedList cmp = Inr L0" by (simp add: new_OrderedList_eq)
  note init = list_inv_new [OF L0]
  have run: "Insert_all L0 ks = Some (Inr L)" using assms L0 by (simp add: build_def)
  from Insert_all_inv [OF _ run, of "[]"] init show ?thesis by auto
qed

subsection \<open>Forward iteration\<close>

lemma forward_loop_chain:
  "chain (heap L) (node_ptr it) as \<Longrightarrow>
   forward_loop L it acc = Some (Inr (acc @ keys_at (heap L) as))"
proof (induction as arbitrary: it acc)
  case Nil
  then show ?case by (subst forward_loop.simps) (simp add: Valid_def keys_at_def)
next
  case (Cons a as)
  from Cons.prems have it: "node_ptr it = Some a" and a: "a < length (heap L)"
    and rest: "chain (heap L) (node_ptr (it\<lparr>node_ptr := next_link (heap L ! a)\<rparr>)) as"
    by simp_all
  have "forward_loop L it acc =
        forward_loop L (it\<lparr>node_ptr := next_link (heap L ! a)\<rparr>) (acc @ [key (heap L ! a)])"
    using it a
    by (subst forward_loop.simps)
       (simp add: Valid_def Iterator_key_def Next_def deref_def Node_Next_def)
  also note Cons.IH [OF rest]
  finally show ?case by (simp add: keys_at_def)
qed

lemma forward_keys_inv:
  assumes inv: "list_inv L as"
  shows "forward_keys L = Some (Inr (keys_at (heap L) as))"
proof -
  have h: "head_ptr L < length (heap L)"
    and c: "chain (heap L) (node_ptr (Iterator_init\<lparr>node_ptr := next_link (heap L ! head_ptr L)\<rparr>)) as"
    using inv by (simp_all add: list_inv_def)
  show ?thesis
    unfolding forward_keys_def using h forward_loop_chain [OF c, of "[]"]
    by (simp add: SeekToFirst_def deref_def Node_Next_def)
qed

text \<open>
  The example of the specification: the seven insertions of the test, then a forward
  iteration.
\<close>

lemma test_main_output:
  "(case build Comparator [342, 413, 4552, 65, 512, 1, 31435] of
      Some (Inr L) \<Rightarrow> forward_keys L | _ \<Rightarrow> None)
   = Some (Inr [1, 65, 342, 413, 512, 4552, 31435])"
  by code_simp

text \<open>
  Where the insertions do what they are meant to: for every comparator that is a total
  order and every sequence \<open>ks\<close> of pairwise distinct keys that are all ordered strictly
  after the sentinel key \<^verbatim>\<open>T(0)\<close>, the run of \<^verbatim>\<open>Insert\<close> calls on a new list returns a
  list, that list is well formed and satisfies I1, and a full forward iteration of it
  returns exactly the keys of \<open>ks\<close>, in strictly ascending comparator order.
\<close>

lemma Insert_sorted_iteration:
  assumes cmp: "total_order_cmp cmp" and dist: "distinct ks"
    and after: "\<forall>k\<in>set ks. cmp 0 k < 0"
  shows "\<exists>L as rs. build cmp ks = Some (Inr L) \<and> list_inv L as \<and> I1 L as
           \<and> forward_keys L = Some (Inr rs) \<and> rs = keys_at (heap L) as
           \<and> sorted_wrt (\<lambda>a b. cmp a b < 0) rs \<and> set rs = set ks \<and> length rs = length ks"
proof -
  obtain L0 where L0: "new_OrderedList cmp = Inr L0" by (simp add: new_OrderedList_eq)
  note init = list_inv_new [OF L0]
  have "\<exists>L' as'. Insert_all L0 ks = Some (Inr L') \<and> compare_fn L' = compare_fn L0
      \<and> list_inv L' as' \<and> I1 L' as'
      \<and> set (keys_at (heap L') as') = set (keys_at (heap L0) []) \<union> set ks
      \<and> length as' = length ([]::nat list) + length ks"
    using init cmp dist after by (intro Insert_all_sorted) (simp_all add: keys_at_def)
  then obtain L as where run: "Insert_all L0 ks = Some (Inr L)" and c: "compare_fn L = cmp"
    and inv: "list_inv L as" and ord: "I1 L as"
    and keys: "set (keys_at (heap L) as) = set ks" and len: "length as = length ks"
    using init by (auto simp: keys_at_def)
  have "build cmp ks = Some (Inr L)" using L0 run by (simp add: build_def)
  moreover have "forward_keys L = Some (Inr (keys_at (heap L) as))" by (rule forward_keys_inv [OF inv])
  moreover have "sorted_wrt (\<lambda>a b. cmp a b < 0) (keys_at (heap L) as)"
    using ord c by (simp add: I1_def before_def [abs_def])
  moreover have "length (keys_at (heap L) as) = length ks" using len by (simp add: keys_at_def)
  ultimately show ?thesis using keys inv ord by blast
qed

lemma Insert_sorted_iteration_example:
  "total_order_cmp Comparator
   \<and> distinct [342, 413, 4552, 65, 512, 1, 31435 :: 32 word]
   \<and> list_all (\<lambda>k. Comparator 0 k < 0) [342, 413, 4552, 65, 512, 1, 31435 :: 32 word]
   \<and> (\<exists>L as rs. build Comparator [342, 413, 4552, 65, 512, 1, 31435] = Some (Inr L)
         \<and> list_inv L as \<and> I1 L as
         \<and> forward_keys L = Some (Inr rs) \<and> rs = keys_at (heap L) as
         \<and> sorted_wrt (\<lambda>a b. Comparator a b < 0) rs
         \<and> set rs = set [342, 413, 4552, 65, 512, 1, 31435]
         \<and> length rs = length [342, 413, 4552, 65, 512, 1, 31435 :: 32 word])"
proof -
  have d: "distinct [342, 413, 4552, 65, 512, 1, 31435 :: 32 word]" by simp
  have a: "\<forall>k\<in>set [342, 413, 4552, 65, 512, 1, 31435 :: 32 word]. Comparator 0 k < 0"
    by (simp add: Comparator_def)
  show ?thesis
    using Insert_sorted_iteration [OF total_order_Comparator d a] total_order_Comparator d a
    by (simp add: list_all_iff)
qed

text \<open>
  C1. The insertions do not accept every sequence of pairwise distinct keys. On a new
  list of \<^verbatim>\<open>uint32_t\<close> keys \<^verbatim>\<open>Insert(0)\<close> fails, although 0 was never inserted: the scan
  stops at the sentinel, whose key is \<^verbatim>\<open>T(0)\<close>, and the assertion against duplicates
  fails. A key ordered before \<^verbatim>\<open>T(0)\<close> fails too: under the descending order
  \<^verbatim>\<open>Insert(5)\<close> on a new list passes the assertion and dereferences \<^verbatim>\<open>prev\<close>, which
  is still \<^verbatim>\<open>nullptr\<close>. No forward iteration follows in either case.
\<close>

theorem Insert_fails_at_sentinel_key:
  "distinct [0 :: 32 word] \<and> build Comparator [0] = Some (Inl AssertFailed)
   \<and> distinct [5 :: 32 word] \<and> build Descending [5] = Some (Inl NullDeref)"
  by (simp add: eval_defs Descending_def)

subsection \<open>The sentinel key and \<^verbatim>\<open>prev\<close>\<close>

lemma with_sentinel_key_fields [simp]:
  "compare_fn (with_sentinel_key L v) = compare_fn L"
  "head_ptr (with_sentinel_key L v) = head_ptr L"
  "length (heap (with_sentinel_key L v)) = length (heap L)"
  by (simp_all add: with_sentinel_key_def)

lemma with_sentinel_key_link [simp]:
  "next_link (heap (with_sentinel_key L v) ! a) = next_link (heap L ! a)"
  by (cases "a = head_ptr L"; cases "a < length (heap L)")
     (simp_all add: with_sentinel_key_def list_update_beyond)

lemma with_sentinel_key_other:
  "a \<noteq> head_ptr L \<Longrightarrow> key (heap (with_sentinel_key L v) ! a) = key (heap L ! a)"
  by (simp add: with_sentinel_key_def)

lemma FindLessThan_loop_sentinel_key:
  "chain (heap L) (Some b) (b # rest) \<Longrightarrow> head_ptr L \<notin> set rest \<Longrightarrow>
   FindLessThan_loop (with_sentinel_key L v) k (Some b) = FindLessThan_loop L k (Some b)"
proof (induction rest arbitrary: b)
  case Nil
  then have b: "b < length (heap L)" and n: "next_link (heap L ! b) = None" by simp_all
  have "FindLessThan_loop (with_sentinel_key L v) k (Some b) = Some (Inl NullDeref)"
    using b n by (subst FindLessThan_loop.simps) (simp add: deref_def Node_Next_def)
  moreover have "FindLessThan_loop L k (Some b) = Some (Inl NullDeref)"
    using b n by (subst FindLessThan_loop.simps) (simp add: deref_def Node_Next_def)
  ultimately show ?case by simp
next
  case (Cons c rest)
  from Cons.prems have b: "b < length (heap L)" and n: "next_link (heap L ! b) = Some c"
    and c: "c < length (heap L)" and ch: "c \<noteq> head_ptr L"
    and rest: "chain (heap L) (Some c) (c # rest)" and nh: "head_ptr L \<notin> set rest"
    by auto
  show ?case
  proof (cases "compare_fn L (key (heap L ! c)) k < 0")
    case True
    have "FindLessThan_loop (with_sentinel_key L v) k (Some b) =
          FindLessThan_loop (with_sentinel_key L v) k (Some c)"
      using b n c True with_sentinel_key_other [OF ch]
      by (subst FindLessThan_loop.simps) (simp add: deref_def Node_Next_def)
    also note Cons.IH [OF rest nh]
    also have "FindLessThan_loop L k (Some c) = FindLessThan_loop L k (Some b)"
      using b n c True
      by (subst (2) FindLessThan_loop.simps) (simp add: deref_def Node_Next_def)
    finally show ?thesis .
  next
    case False
    have "FindLessThan_loop (with_sentinel_key L v) k (Some b) = Some (Inr (Some b))"
      using b n c False with_sentinel_key_other [OF ch]
      by (subst FindLessThan_loop.simps) (simp add: deref_def Node_Next_def)
    moreover have "FindLessThan_loop L k (Some b) = Some (Inr (Some b))"
      using b n c False
      by (subst FindLessThan_loop.simps) (simp add: deref_def Node_Next_def)
    ultimately show ?thesis by simp
  qed
qed

lemma FindLessThan_sentinel_key:
  assumes inv: "list_inv L as"
  shows "FindLessThan (with_sentinel_key L v) k = FindLessThan L k"
  unfolding FindLessThan_def with_sentinel_key_fields
  using inv by (intro FindLessThan_loop_sentinel_key [of L _ as]) (simp_all add: list_inv_def)

lemma FindGreaterOrEqual_first_comparison:
  assumes inv: "list_inv L as"
  shows "FindGreaterOrEqual L k prev =
     (if compare_fn L 0 k < 0
      then FindGreaterOrEqual_loop L k (Node_Next (heap L ! head_ptr L))
             (if prev \<noteq> None then Some (Some (head_ptr L)) else prev)
      else Some (Inr (Some (head_ptr L), prev)))"
  unfolding FindGreaterOrEqual_def
  using inv
  by (subst FindGreaterOrEqual_loop.simps) (simp add: list_inv_def KeyIsAfterNode_def deref_def)

text \<open>
  C6, amended. In every list built by the constructor and a run of \<^verbatim>\<open>Insert\<close> calls
  the sentinel holds the key \<^verbatim>\<open>T(0)\<close>, and that key is the first key every
  \<^verbatim>\<open>FindGreaterOrEqual\<close> scan compares, whichever \<^verbatim>\<open>prev\<close> it is given (the scans of
  \<^verbatim>\<open>Insert\<close> and \<^verbatim>\<open>Contains\<close>); the scan of \<^verbatim>\<open>FindLessThan\<close> does not read it: its
  result is the same whatever key the sentinel holds. Consequently, for a key \<open>k\<close>
  ordered strictly after \<^verbatim>\<open>T(0)\<close>, \<^verbatim>\<open>FindGreaterOrEqual(k, &prev)\<close> leaves the address
  of an allocated node in \<^verbatim>\<open>prev\<close>, and \<^verbatim>\<open>Insert(k)\<close> returns without dereferencing a
  null or wild pointer. For a key not ordered after \<^verbatim>\<open>T(0)\<close> the scan stops at the
  sentinel, \<^verbatim>\<open>prev\<close> stays \<^verbatim>\<open>nullptr\<close>, and \<^verbatim>\<open>Insert(k)\<close> fails: at its assertion
  when \<open>k\<close> equals \<^verbatim>\<open>T(0)\<close> under the comparator, at \<^verbatim>\<open>prev->NoBarrierNext()\<close>
  otherwise.
\<close>

theorem sentinel_key_guards_prev:
  assumes built: "build cmp ks = Some (Inr L)"
  shows "key (heap L ! head_ptr L) = 0
    \<and> FindGreaterOrEqual L k prev =
         (if cmp 0 k < 0
          then FindGreaterOrEqual_loop L k (Node_Next (heap L ! head_ptr L))
                 (if prev \<noteq> None then Some (Some (head_ptr L)) else prev)
          else Some (Inr (Some (head_ptr L), prev)))
    \<and> FindLessThan (with_sentinel_key L v) k' = FindLessThan L k'
    \<and> (cmp 0 k < 0 \<longrightarrow>
         (\<exists>x p. FindGreaterOrEqual L k (Some None) = Some (Inr (x, Some (Some p)))
            \<and> p < length (heap L))
         \<and> Insert L k \<noteq> None \<and> Insert L k \<noteq> Some (Inl NullDeref)
         \<and> Insert L k \<noteq> Some (Inl WildPointer))
    \<and> (\<not> cmp 0 k < 0 \<longrightarrow>
         FindGreaterOrEqual L k (Some None) = Some (Inr (Some (head_ptr L), Some None))
         \<and> Insert L k = Some (Inl (if cmp k 0 = 0 then AssertFailed else NullDeref)))"
proof -
  from build_inv [OF built] obtain as where inv: "list_inv L as" and c: "compare_fn L = cmp"
    by auto
  have 1: "key (heap L ! head_ptr L) = 0" using inv by (simp add: list_inv_def)
  have 2: "(\<exists>x p. FindGreaterOrEqual L k (Some None) = Some (Inr (x, Some (Some p)))
             \<and> p < length (heap L))
           \<and> Insert L k \<noteq> None \<and> Insert L k \<noteq> Some (Inl NullDeref)
           \<and> Insert L k \<noteq> Some (Inl WildPointer)" if after: "cmp 0 k < 0"
  proof -
    have a: "compare_fn L 0 k < 0" using after c by simp
    show ?thesis
      unfolding FindGreaterOrEqual_after [OF inv a] Insert_after [OF inv a]
      using last_pre_bound [OF inv, of "node_before L k"]
      by (simp del: last.simps split: list.splits)
  qed
  have 3: "FindGreaterOrEqual L k (Some None) = Some (Inr (Some (head_ptr L), Some None))
           \<and> Insert L k = Some (Inl (if cmp k 0 = 0 then AssertFailed else NullDeref))"
    if after: "\<not> cmp 0 k < 0"
  proof -
    have a: "\<not> compare_fn L 0 k < 0" using after c by simp
    show ?thesis
      using FindGreaterOrEqual_not_after [OF inv a] Insert_not_after [OF inv a] c by simp
  qed
  have 4: "FindGreaterOrEqual L k prev =
         (if cmp 0 k < 0
          then FindGreaterOrEqual_loop L k (Node_Next (heap L ! head_ptr L))
                 (if prev \<noteq> None then Some (Some (head_ptr L)) else prev)
          else Some (Inr (Some (head_ptr L), prev)))"
    using FindGreaterOrEqual_first_comparison [OF inv, of k prev] c by simp
  have 5: "FindLessThan (with_sentinel_key L v) k' = FindLessThan L k'"
    by (rule FindLessThan_sentinel_key [OF inv])
  show ?thesis using 1 2 3 4 5 by blast
qed

theorem sentinel_key_guards_prev_witness:
  "build Comparator [342, 65, 413] = Some (Inr example_list)
   \<and> key (heap example_list ! head_ptr example_list) = 0
   \<and> FindLessThan (with_sentinel_key example_list 1000) 400 = FindLessThan example_list 400
   \<and> Comparator 0 100 < 0
   \<and> FindGreaterOrEqual example_list 100 (Some None) = Some (Inr (Some 1, Some (Some 2)))
   \<and> \<not> Comparator 0 0 < 0
   \<and> FindGreaterOrEqual example_list 0 (Some None) = Some (Inr (Some 0, Some None))
   \<and> Insert example_list 0 = Some (Inl AssertFailed)"
proof -
  have a: "Comparator 0 100 < 0" and b: "\<not> Comparator 0 0 < 0" "Comparator 0 0 = 0"
    by (simp_all add: Comparator_def)
  have f: "FindGreaterOrEqual example_list 100 (Some None) = Some (Inr (Some 1, Some (Some 2)))"
    by (simp add: eval_defs example_list_def)
  have h: "head_ptr example_list = 0" by (simp add: example_list_def)
  note after = sentinel_key_guards_prev [OF build_example, of 100 "Some None" 1000 400]
  note not_after = sentinel_key_guards_prev [OF build_example, of 0 "Some None" 1000 400]
  have 1: "key (heap example_list ! head_ptr example_list) = 0"
    and 2: "FindLessThan (with_sentinel_key example_list 1000) 400 = FindLessThan example_list 400"
    using after by blast+
  have 3: "FindGreaterOrEqual example_list 0 (Some None) = Some (Inr (Some 0, Some None))
           \<and> Insert example_list 0 = Some (Inl AssertFailed)"
    using not_after b h by simp
  show ?thesis using 1 2 3 a b f build_example by simp
qed

text \<open>
  C6 as stated has the sentinel's key take part in every comparator-based scan. The
  scan of \<^verbatim>\<open>FindLessThan\<close> starts at the sentinel and compares the key of the
  successor only: on the list holding 65, 342, 413, \<^verbatim>\<open>FindLessThan(400)\<close> returns the
  node of 342, and returns it as well when the sentinel holds the key 1000, while
  \<^verbatim>\<open>FindGreaterOrEqual(400, nullptr)\<close> then stops at the sentinel.
\<close>

theorem FindLessThan_skips_sentinel_key:
  "FindLessThan example_list 400 = Some (Inr (Some 1))
   \<and> FindLessThan (with_sentinel_key example_list 1000) 400 = Some (Inr (Some 1))
   \<and> FindGreaterOrEqual example_list 400 None = Some (Inr (Some 3, None))
   \<and> FindGreaterOrEqual (with_sentinel_key example_list 1000) 400 None
       = Some (Inr (Some 0, None))"
  by (simp add: eval_defs example_list_def with_sentinel_key_def)

subsection \<open>\<^verbatim>\<open>FindLessThan\<close>, \<^verbatim>\<open>FindLast\<close> and backward iteration\<close>

lemma FindLessThan_loop_chain:
  "chain (heap L) (Some b) (b # pre @ t # post) \<Longrightarrow>
   \<forall>c\<in>set pre. compare_fn L (key (heap L ! c)) k < 0 \<Longrightarrow>
   \<not> compare_fn L (key (heap L ! t)) k < 0 \<Longrightarrow>
   FindLessThan_loop L k (Some b) = Some (Inr (Some (last (b # pre))))"
proof (induction pre arbitrary: b)
  case Nil
  then show ?case
    by (subst FindLessThan_loop.simps) (simp add: deref_def Node_Next_def)
next
  case (Cons c pre)
  from Cons.prems(1) have b: "b < length (heap L)" and n: "next_link (heap L ! b) = Some c"
    and c: "c < length (heap L)" and rest: "chain (heap L) (Some c) (c # pre @ t # post)"
    by simp_all
  have "FindLessThan_loop L k (Some b) = FindLessThan_loop L k (Some c)"
    using b n c Cons.prems(2)
    by (subst FindLessThan_loop.simps) (simp add: deref_def Node_Next_def)
  also have "\<dots> = Some (Inr (Some (last (c # pre))))"
    using Cons.prems(2,3) by (intro Cons.IH [OF rest]) simp_all
  finally show ?case by simp
qed

lemma FindLast_loop_chain:
  "chain (heap L) (Some b) (b # rest) \<Longrightarrow>
   FindLast_loop L (Some b) = Some (Inr (Some (last (b # rest))))"
proof (induction rest arbitrary: b)
  case Nil
  then show ?case
    by (subst FindLast_loop.simps) (simp add: deref_def Node_Next_def)
next
  case (Cons c rest)
  from Cons.prems have b: "b < length (heap L)" and n: "next_link (heap L ! b) = Some c"
    and rest: "chain (heap L) (Some c) (c # rest)"
    by simp_all
  have "FindLast_loop L (Some b) = FindLast_loop L (Some c)"
    using b n by (subst FindLast_loop.simps) (simp add: deref_def Node_Next_def)
  also note Cons.IH [OF rest]
  finally show ?case by simp
qed

lemma I1_nth_less:
  "I1 L as \<Longrightarrow> i < j \<Longrightarrow> j < length as \<Longrightarrow>
   compare_fn L (key (heap L ! (as ! i))) (key (heap L ! (as ! j))) < 0"
  unfolding I1_def keys_at_def
  using sorted_wrt_nth_less [of "before (compare_fn L)" "map (\<lambda>a. key (heap L ! a)) as" i j]
  by (simp add: before_def)

lemma FindLessThan_stored:
  assumes cmp: "total_order_cmp (compare_fn L)" and inv: "list_inv L as" and ord: "I1 L as"
    and i: "i < length as"
  shows "FindLessThan L (key (heap L ! (as ! i))) =
         Some (Inr (Some (if i = 0 then head_ptr L else as ! (i - 1))))"
proof -
  let ?k = "key (heap L ! (as ! i))"
  have split: "as = take i as @ as ! i # drop (Suc i) as"
    using i by (rule id_take_nth_drop)
  have "chain (heap L) (Some (head_ptr L)) (head_ptr L # as)"
    using inv by (simp add: list_inv_def)
  then have c: "chain (heap L) (Some (head_ptr L))
                  (head_ptr L # take i as @ as ! i # drop (Suc i) as)"
    using split by simp
  have pre: "\<forall>c\<in>set (take i as). compare_fn L (key (heap L ! c)) ?k < 0"
  proof
    fix c assume "c \<in> set (take i as)"
    then obtain j where j: "j < i" and cj: "c = as ! j"
      using i by (auto simp: in_set_conv_nth)
    show "compare_fn L (key (heap L ! c)) ?k < 0"
      unfolding cj by (rule I1_nth_less [OF ord j i])
  qed
  have "compare_fn L ?k ?k = 0" using cmp by (simp add: total_order_cmp_def)
  then have stop: "\<not> compare_fn L ?k ?k < 0" by simp
  have "FindLessThan L ?k = Some (Inr (Some (last (head_ptr L # take i as))))"
    unfolding FindLessThan_def by (rule FindLessThan_loop_chain [OF c pre stop])
  moreover have "last (head_ptr L # take i as) = (if i = 0 then head_ptr L else as ! (i - 1))"
    using i by (cases i) (simp_all add: take_Suc_conv_app_nth)
  ultimately show ?thesis by simp
qed

lemma Prev_stored:
  assumes cmp: "total_order_cmp (compare_fn L)" and inv: "list_inv L as" and ord: "I1 L as"
    and i: "i < length as" and pos: "node_ptr it = Some (as ! i)"
  shows "Prev L it = Some (Inr (it\<lparr>node_ptr := (if i = 0 then None else Some (as ! (i - 1)))\<rparr>))"
proof -
  have a: "as ! i < length (heap L)" using list_inv_bound [OF inv] i by simp
  have "i \<noteq> 0 \<Longrightarrow> as ! (i - 1) \<in> set as" using i by simp
  moreover have "head_ptr L \<notin> set as" using inv by (simp add: list_inv_def)
  ultimately have ne: "i \<noteq> 0 \<Longrightarrow> as ! (i - 1) \<noteq> head_ptr L" by metis
  show ?thesis
    unfolding Prev_def using pos a ne FindLessThan_stored [OF cmp inv ord i]
    by (simp add: Valid_def deref_def)
qed

lemma SeekToLast_inv:
  assumes inv: "list_inv L as"
  shows "SeekToLast L it =
         Some (Inr (it\<lparr>node_ptr := (if as = [] then None else Some (last as))\<rparr>))"
proof -
  have c: "chain (heap L) (Some (head_ptr L)) (head_ptr L # as)"
    using inv by (simp add: list_inv_def)
  have "as \<noteq> [] \<Longrightarrow> last as \<in> set as" by simp
  moreover have "head_ptr L \<notin> set as" using inv by (simp add: list_inv_def)
  ultimately have ne: "as \<noteq> [] \<Longrightarrow> last as \<noteq> head_ptr L" by metis
  show ?thesis
    unfolding SeekToLast_def FindLast_def FindLast_loop_chain [OF c] using ne by simp
qed

lemma backward_loop_stored:
  assumes cmp: "total_order_cmp (compare_fn L)" and inv: "list_inv L as" and ord: "I1 L as"
  shows "i < length as \<Longrightarrow> node_ptr it = Some (as ! i) \<Longrightarrow>
         backward_loop L it acc = Some (Inr (acc @ rev (take (Suc i) (keys_at (heap L) as))))"
proof (induction i arbitrary: it acc)
  case 0
  have a: "as ! 0 < length (heap L)" using list_inv_bound [OF inv] "0.prems"(1) by simp
  have "backward_loop L it acc =
        backward_loop L (it\<lparr>node_ptr := None\<rparr>) (acc @ [key (heap L ! (as ! 0))])"
    using "0.prems" a Prev_stored [OF cmp inv ord "0.prems"]
    by (subst backward_loop.simps) (simp add: Valid_def Iterator_key_def deref_def)
  also have "\<dots> = Some (Inr (acc @ [key (heap L ! (as ! 0))]))"
    by (subst backward_loop.simps) (simp add: Valid_def)
  finally show ?case using "0.prems"(1) by (simp add: keys_at_def take_Suc_conv_app_nth)
next
  case (Suc i)
  let ?k = "key (heap L ! (as ! Suc i))"
  have a: "as ! Suc i < length (heap L)"
    using list_inv_bound [OF inv] Suc.prems(1) by simp
  have "backward_loop L it acc =
        backward_loop L (it\<lparr>node_ptr := Some (as ! i)\<rparr>) (acc @ [?k])"
    using Suc.prems a Prev_stored [OF cmp inv ord Suc.prems]
    by (subst backward_loop.simps) (simp add: Valid_def Iterator_key_def deref_def)
  also have "\<dots> = Some (Inr ((acc @ [?k]) @ rev (take (Suc i) (keys_at (heap L) as))))"
    using Suc.prems(1) by (intro Suc.IH) simp_all
  also have "(acc @ [?k]) @ rev (take (Suc i) (keys_at (heap L) as)) =
             acc @ rev (take (Suc (Suc i)) (keys_at (heap L) as))"
    using Suc.prems(1) by (simp add: keys_at_def take_Suc_conv_app_nth [of "Suc i"])
  finally show ?case .
qed

lemma backward_keys_inv:
  assumes cmp: "total_order_cmp (compare_fn L)" and inv: "list_inv L as" and ord: "I1 L as"
  shows "backward_keys L = Some (Inr (rev (keys_at (heap L) as)))"
proof (cases "as = []")
  case True
  then show ?thesis
    unfolding backward_keys_def SeekToLast_inv [OF inv]
    by (simp add: keys_at_def Iterator_init_def backward_loop.simps Valid_def)
next
  case False
  then have i: "length as - 1 < length as" by simp
  have pos: "node_ptr (Iterator_init\<lparr>node_ptr := Some (last as)\<rparr>) = Some (as ! (length as - 1))"
    using False by (simp add: last_conv_nth)
  have "Suc (length as - 1) = length as" using False by simp
  then show ?thesis
    unfolding backward_keys_def SeekToLast_inv [OF inv]
    using False backward_loop_stored [OF cmp inv ord i pos, of "[]"]
    by (simp add: keys_at_def)
qed

text \<open>
  C7. Let the list be well formed with stored nodes \<open>as\<close>, its stored keys strictly
  ascending (I1), the comparator a total order, and the iterator positioned at the
  stored node \<open>as ! i\<close>. Then \<^verbatim>\<open>Prev()\<close> returns; the iterator is valid afterwards
  exactly when the node was not the first element; and when it is valid it is at
  \<open>as ! (i - 1)\<close>, whose key is strictly ordered before the current key and is the
  largest such key: every stored key strictly before the current key is before or
  equal to it.
\<close>

theorem Prev_positions_at_predecessor:
  assumes cmp: "total_order_cmp (compare_fn L)" and inv: "list_inv L as" and ord: "I1 L as"
    and i: "i < length as" and pos: "node_ptr it = Some (as ! i)"
  shows "\<exists>it'. Prev L it = Some (Inr it')
     \<and> (Valid it' \<longleftrightarrow> i \<noteq> 0)
     \<and> (i \<noteq> 0 \<longrightarrow> node_ptr it' = Some (as ! (i - 1))
          \<and> compare_fn L (key (heap L ! (as ! (i - 1)))) (key (heap L ! (as ! i))) < 0
          \<and> (\<forall>b\<in>set as. compare_fn L (key (heap L ! b)) (key (heap L ! (as ! i))) < 0 \<longrightarrow>
                compare_fn L (key (heap L ! b)) (key (heap L ! (as ! (i - 1)))) \<le> 0))"
proof -
  let ?k = "\<lambda>j. key (heap L ! (as ! j))"
  have refl: "\<And>x. compare_fn L x x = 0" using cmp by (simp add: total_order_cmp_def)
  have asym: "\<And>x y. compare_fn L x y < 0 \<Longrightarrow> \<not> compare_fn L y x < 0"
    using cmp unfolding total_order_cmp_def by (metis less_asym)
  have pred: "compare_fn L (?k (i - 1)) (?k i) < 0" if "i \<noteq> 0"
    using that i by (intro I1_nth_less [OF ord]) simp_all
  have largest: "compare_fn L (key (heap L ! b)) (?k (i - 1)) \<le> 0"
    if b: "b \<in> set as" and lt: "compare_fn L (key (heap L ! b)) (?k i) < 0" and "i \<noteq> 0" for b
  proof -
    from b obtain j where j: "j < length as" and bj: "b = as ! j"
      by (auto simp: in_set_conv_nth)
    have "j \<noteq> i" using lt refl [of "?k i"] bj by auto
    moreover have "\<not> i < j" using I1_nth_less [OF ord _ j, of i] asym lt bj by blast
    ultimately have "j < i" by simp
    then have "j = i - 1 \<or> j < i - 1" by arith
    then show ?thesis
    proof
      assume "j = i - 1"
      then show ?thesis using refl bj by simp
    next
      assume "j < i - 1"
      then have "compare_fn L (?k j) (?k (i - 1)) < 0"
        using i by (intro I1_nth_less [OF ord]) simp_all
      then show ?thesis using bj by simp
    qed
  qed
  show ?thesis
    unfolding Prev_stored [OF cmp inv ord i pos] using pred largest
    by (simp add: Valid_def)
qed

theorem Prev_positions_at_predecessor_witness:
  "total_order_cmp (compare_fn example_list)
   \<and> list_inv example_list [2, 1, 3] \<and> I1 example_list [2, 1, 3]
   \<and> (1::nat) < length [2, 1, 3 :: nat]
   \<and> node_ptr \<lparr>node_ptr = Some 1\<rparr> = Some ([2, 1, 3] ! 1)
   \<and> (\<exists>it'. Prev example_list \<lparr>node_ptr = Some 1\<rparr> = Some (Inr it') \<and> Valid it'
         \<and> node_ptr it' = Some 2
         \<and> Iterator_key example_list it' = Inr 65)"
proof -
  have c: "total_order_cmp (compare_fn example_list)"
    using total_order_Comparator by (simp add: example_list_def)
  note inv = example_list_inv [THEN conjunct1] and ord = example_list_inv [THEN conjunct2]
  have i: "(1::nat) < length [2, 1, 3 :: nat]" by simp
  have p: "node_ptr \<lparr>node_ptr = Some 1\<rparr> = Some ([2, 1, 3] ! 1)" by simp
  have k: "\<And>it'. node_ptr it' = Some 2 \<Longrightarrow> Iterator_key example_list it' = Inr 65"
    by (simp add: Iterator_key_def Valid_def deref_def example_list_def)
  show ?thesis
    using Prev_positions_at_predecessor [OF c inv ord i p] c inv ord k
    by auto
qed

text \<open>
  C8. For every list built by the constructor and a run of \<^verbatim>\<open>Insert\<close> calls that all
  returned, under a comparator that is a total order: the full forward iteration and
  the full backward iteration both return, and the keys of the backward iteration are
  those of the forward iteration in reverse.
\<close>

theorem forward_backward_symmetry:
  assumes cmp: "total_order_cmp cmp" and built: "build cmp ks = Some (Inr L)"
  shows "\<exists>rs. forward_keys L = Some (Inr rs) \<and> backward_keys L = Some (Inr (rev rs))"
proof -
  from build_inv [OF built] cmp obtain as where inv: "list_inv L as"
    and c: "compare_fn L = cmp" and ord: "I1 L as" by auto
  have "total_order_cmp (compare_fn L)" using cmp c by simp
  then show ?thesis
    using forward_keys_inv [OF inv] backward_keys_inv [OF _ inv ord] by simp
qed

theorem forward_backward_symmetry_witness:
  "total_order_cmp Comparator
   \<and> build Comparator [342, 65, 413] = Some (Inr example_list)
   \<and> forward_keys example_list = Some (Inr [65, 342, 413])
   \<and> backward_keys example_list = Some (Inr [413, 342, 65])"
proof -
  have f: "forward_keys example_list = Some (Inr [65, 342, 413])"
    by (simp add: eval_defs example_list_def)
  show ?thesis
    using forward_backward_symmetry [OF total_order_Comparator build_example] f
      total_order_Comparator build_example
    by auto
qed

subsection \<open>Queries with a key after the sentinel key\<close>

lemma Contains_after_sentinel:
  assumes cmp: "total_order_cmp (compare_fn L)" and inv: "list_inv L as" and ord: "I1 L as"
    and after: "compare_fn L 0 k < 0"
  shows "Contains L k = Some (Inr (k \<in> set (keys_at (heap L) as)))"
proof (cases "dropWhile (node_before L k) as")
  case Nil
  then have "\<forall>a\<in>set as. node_before L k a" by simp
  moreover have "\<not> compare_fn L k k < 0" by (rule total_order_cmp_irrefl [OF cmp])
  ultimately have "k \<notin> set (keys_at (heap L) as)"
    by (auto simp: keys_at_def node_before_def)
  then show ?thesis
    unfolding Contains_def FindGreaterOrEqual_after [OF inv after] Nil by simp
next
  case (Cons b bs)
  then have split: "as = takeWhile (node_before L k) as @ b # bs" and nb: "\<not> node_before L k b"
    by (simp_all add: dropWhile_eq_Cons_conv)
  have b: "b \<in> set as" using split by (metis in_set_conv_decomp)
  then have bl: "b < length (heap L)" by (rule list_inv_bound [OF inv])
  have eq: "compare_fn L k (key (heap L ! b)) = 0 \<longleftrightarrow> k = key (heap L ! b)"
    using cmp unfolding total_order_cmp_def by blast
  have "k \<in> set (keys_at (heap L) as) \<longleftrightarrow> k = key (heap L ! b)"
  proof
    assume "k = key (heap L ! b)"
    then show "k \<in> set (keys_at (heap L) as)" using b by (auto simp: keys_at_def)
  next
    assume "k \<in> set (keys_at (heap L) as)"
    then obtain c where c: "c \<in> set as" and kc: "k = key (heap L ! c)"
      by (auto simp: keys_at_def)
    have nc: "\<not> node_before L k c"
      using total_order_cmp_irrefl [OF cmp, of k] kc by (simp add: node_before_def)
    have "sorted_wrt (before (compare_fn L))
            (keys_at (heap L) (takeWhile (node_before L k) as @ b # bs))"
      using ord split by (simp add: I1_def)
    then have later: "\<forall>d\<in>set bs. compare_fn L (key (heap L ! b)) (key (heap L ! d)) < 0"
      by (simp add: keys_at_def sorted_wrt_append before_def)
    from c split have "c \<in> set (takeWhile (node_before L k) as) \<or> c = b \<or> c \<in> set bs"
      by (metis Un_iff set_ConsD set_append)
    then show "k = key (heap L ! b)"
    proof (elim disjE)
      assume "c \<in> set (takeWhile (node_before L k) as)"
      then show ?thesis using nc by (auto dest: set_takeWhileD)
    next
      assume "c = b"
      then show ?thesis using kc by simp
    next
      assume "c \<in> set bs"
      then have "node_before L k b" using later kc by (simp add: node_before_def)
      then show ?thesis using nb by simp
    qed
  qed
  then show ?thesis
    unfolding Contains_def FindGreaterOrEqual_after [OF inv after] Cons
    using bl eq by (simp add: deref_def Equal_def)
qed

lemma Seek_after_sentinel:
  assumes inv: "list_inv L as" and after: "compare_fn L 0 k < 0"
  shows "Seek L it k =
     Some (Inr (it\<lparr>node_ptr := (case dropWhile (node_before L k) as of [] \<Rightarrow> None
                                  | b # _ \<Rightarrow> Some b)\<rparr>))"
  unfolding Seek_def FindGreaterOrEqual_after [OF inv after] by simp

subsection \<open>Queries that reach the sentinel\<close>

text \<open>
  C2. On a new list of \<^verbatim>\<open>uint32_t\<close> keys, which holds no key (its forward iteration
  is empty), \<^verbatim>\<open>Contains(0)\<close> returns true: \<^verbatim>\<open>FindGreaterOrEqual\<close> starts at the
  sentinel and returns it, and \<^verbatim>\<open>Equal\<close> compares the key with the sentinel's
  \<^verbatim>\<open>T(0)\<close>.
\<close>

theorem Contains_reports_sentinel_key:
  "\<exists>L. new_OrderedList Comparator = Inr L \<and> forward_keys L = Some (Inr [])
      \<and> Contains L 0 = Some (Inr True)"
  by (simp add: eval_defs)

text \<open>
  C3. On the list that holds the single key 5, the search \<^verbatim>\<open>FindGreaterOrEqual(0, nullptr)\<close>
  behind \<^verbatim>\<open>Contains\<close> and \<^verbatim>\<open>Seek\<close> returns the sentinel itself, and \<^verbatim>\<open>Contains(0)\<close>
  returns true.
\<close>

theorem query_results_include_head:
  "\<exists>L. build Comparator [5] = Some (Inr L)
      \<and> forward_keys L = Some (Inr [5])
      \<and> FindGreaterOrEqual L 0 None = Some (Inr (Some (head_ptr L), None))
      \<and> Contains L 0 = Some (Inr True)"
  by (simp add: eval_defs)

text \<open>
  C4. On a new list \<^verbatim>\<open>FindLessThan(5)\<close> examines the successor of the sentinel,
  which is \<^verbatim>\<open>nullptr\<close>, and dereferences it.
\<close>

theorem FindLessThan_null_successor:
  "\<exists>L. new_OrderedList Comparator = Inr L \<and> FindLessThan L 5 = Some (Inl NullDeref)"
  by (simp add: eval_defs)

text \<open>
  C5. \<^verbatim>\<open>Seek(k)\<close> is to position at the node \<^verbatim>\<open>FindGreaterOrEqual(k, nullptr)\<close> returns.
  On a new list, which holds no key, \<^verbatim>\<open>FindGreaterOrEqual(0, nullptr)\<close> does not return
  \<^verbatim>\<open>nullptr\<close>: it returns the sentinel, whose key is \<^verbatim>\<open>T(0)\<close> and not a stored key.
\<close>

theorem FindGreaterOrEqual_reports_sentinel:
  "\<exists>L. new_OrderedList Comparator = Inr L \<and> forward_keys L = Some (Inr [])
      \<and> FindGreaterOrEqual L 0 None = Some (Inr (Some (head_ptr L), None))
      \<and> deref (heap L) (Some (head_ptr L)) = Inr \<lparr>key = 0, next_link = None\<rparr>"
  by (simp add: eval_defs)

text \<open>
  With \<^verbatim>\<open>Seek\<close> as the specification gives it, \<^verbatim>\<open>Seek(0)\<close> on a new list leaves the
  iterator valid, at the sentinel, and \<^verbatim>\<open>key()\<close> returns the sentinel's \<^verbatim>\<open>T(0)\<close>.
\<close>

lemma Seek_positions_at_sentinel:
  "\<exists>L it. new_OrderedList Comparator = Inr L \<and> forward_keys L = Some (Inr [])
      \<and> Seek L Iterator_init 0 = Some (Inr it) \<and> Valid it \<and> Iterator_key L it = Inr 0"
  by (simp add: eval_defs)

end
